theory Spec2Isabelle
  imports Main
begin

section \<open>React hook helpers of \<open>src/index.ts\<close>\<close>

text \<open>
  The nine helpers of \<open>src/index.ts\<close> are React hooks: each is a function that React
  calls once per render of the component using it. What a hook does is split between
  the render itself (\<open>useState\<close>, \<open>useRef\<close>, \<open>useCallback\<close>) and the effects it
  registers (\<open>useEffect\<close>), which React runs after the render. The embedding makes
  the life cycle explicit. A hook \<open>useX\<close> becomes
  \<^item> \<open>useX_mount\<close>: the first render followed by all of its effects, in source order;
  \<^item> \<open>useX_render\<close>: a later render; React first runs the cleanups returned by the
    previous run of every effect whose dependency array changed, then the bodies of
    those effects, both in source order; an effect with no dependency array runs
    after every render, one with the array \<open>[]\<close> only at the mount;
  \<^item> \<open>useX_unmount\<close>: the cleanups of all effects.
  The functions that the source defines inside a hook (\<open>handleWindowResize\<close>,
  \<open>changeToggle\<close>, \<open>set\<close>, \<open>clear\<close>, \<open>reset\<close>, the members of \<open>arrayControl\<close>)
  are functions from the component's state to its new state. A state setter called
  with an updater function \<open>prev => e\<close> is the function \<open>\<lambda>prev. e\<close> applied to the
  current state.
\<close>

subsection \<open>\<open>useToggle\<close> (lines 106--114)\<close>

text \<open>
  \<open>changeToggle\<close> is declared for \<open>value: boolean | null\<close>; \<open>None\<close> is \<open>null\<close>, the
  argument for which \<open>typeof value === 'boolean'\<close> is false. The state is the boolean
  \<open>toggle\<close>; \<open>useToggle\<close> gives its initial value.
\<close>

definition useToggle :: "bool \<Rightarrow> bool" where
  "useToggle defaultValue = defaultValue"

definition changeToggle :: "bool option \<Rightarrow> bool \<Rightarrow> bool" where
  "changeToggle v prev = (case v of Some b \<Rightarrow> b | None \<Rightarrow> \<not> prev)"

subsection \<open>\<open>useArray\<close> (lines 193--209)\<close>

text \<open>
  \<open>Array.prototype.slice(start, end)\<close> on integer arguments: a negative index counts
  from the end of the array, both indices are clamped to \<open>0..length\<close>, and the result
  is empty when the clamped end is not after the clamped start.
\<close>

definition slice :: "'a list \<Rightarrow> int \<Rightarrow> int \<Rightarrow> 'a list" where
  "slice xs start end' =
     (let len = int (length xs);
          k = (if start < 0 then max (len + start) 0 else min start len);
          final = (if end' < 0 then max (len + end') 0 else min end' len)
      in take (nat (final - k)) (drop (nat k) xs))"

text \<open>\<open>useState(defaultValue ? defaultValue : [])\<close>: an absent default is the empty array.\<close>

definition useArray :: "'a list option \<Rightarrow> 'a list" where
  "useArray defaultValue = (case defaultValue of Some xs \<Rightarrow> xs | None \<Rightarrow> [])"

definition array_clear :: "'a list \<Rightarrow> 'a list" where
  "array_clear prev = []"

definition array_push :: "'a \<Rightarrow> 'a list \<Rightarrow> 'a list" where
  "array_push v prev = prev @ [v]"

definition array_remove :: "int \<Rightarrow> 'a list \<Rightarrow> 'a list" where
  "array_remove index prev =
     slice prev 0 index @ slice prev (index + 1) (int (length prev) - 1)"

definition array_update :: "int \<Rightarrow> 'a \<Rightarrow> 'a list \<Rightarrow> 'a list" where
  "array_update index v prev =
     slice prev 0 index @ [v] @ slice prev (index + 1) (int (length prev) - 1)"

text \<open>
  \<open>filter\<close> is typed \<open>() => boolean\<close> in \<open>ArrayControl\<close>, but \<open>prev.filter\<close> calls it
  with each element.
\<close>

definition array_filter :: "('a \<Rightarrow> bool) \<Rightarrow> 'a list \<Rightarrow> 'a list" where
  "array_filter p prev = filter p prev"

subsection \<open>\<open>useLocalStorage\<close> (lines 73--87)\<close>

text \<open>
  \<open>window.localStorage\<close> maps keys to strings; \<open>getItem\<close> returns \<open>null\<close> (\<open>None\<close>) for
  a key that is not stored. Exceptions of the storage (quota, access denied) are not
  handled by the source and not modelled.
\<close>

type_synonym storage = "string \<Rightarrow> string option"

definition getItem :: "storage \<Rightarrow> string \<Rightarrow> string option" where
  "getItem st key = st key"

definition setItem :: "string \<Rightarrow> string \<Rightarrow> storage \<Rightarrow> storage" where
  "setItem key v st = st(key \<mapsto> v)"

text \<open>
  The hook's cells: the state \<open>data\<close>, and the dependency array \<open>[key, data]\<close> of the
  effect's last run, which React keeps to decide whether the effect runs again.
\<close>

record localStorage_hook =
  data :: string
  dep_key :: string
  dep_data :: string

text \<open>
  The initialiser of \<open>useState\<close> (lines 77--80). \<open>local ? local : initial\<close> tests the
  truthiness of \<open>local\<close>: \<open>null\<close> and the empty string are both falsy.
\<close>

definition useLocalStorage_init :: "string \<Rightarrow> string \<Rightarrow> storage \<Rightarrow> string" where
  "useLocalStorage_init key initial st =
     (case getItem st key of
        None \<Rightarrow> initial
      | Some local \<Rightarrow> if local \<noteq> [] then local else initial)"

definition useLocalStorage_mount ::
  "string \<Rightarrow> string \<Rightarrow> storage \<Rightarrow> localStorage_hook \<times> storage" where
  "useLocalStorage_mount key initial st =
     (let d = useLocalStorage_init key initial st
      in (\<lparr>data = d, dep_key = key, dep_data = d\<rparr>, setItem key d st))"

text \<open>
  A later render with the key \<open>key\<close>: the effect (lines 82--84) runs when \<open>key\<close> or
  \<open>data\<close> differs from the value of the previous render. The state is not read from
  the storage again.
\<close>

definition useLocalStorage_render ::
  "string \<Rightarrow> localStorage_hook \<times> storage \<Rightarrow> localStorage_hook \<times> storage" where
  "useLocalStorage_render key hs =
     (let h = fst hs; st = snd hs
      in if key = dep_key h \<and> data h = dep_data h then (h, st)
         else (h\<lparr>dep_key := key, dep_data := data h\<rparr>, setItem key (data h) st))"

text \<open>
  The returned setter \<open>setData\<close> takes a \<open>SetStateAction<string>\<close>: a new value, or a
  function of the previous one. The component then renders again.
\<close>

datatype action = Value string | Updater "string \<Rightarrow> string"

definition setData ::
  "action \<Rightarrow> string \<Rightarrow> localStorage_hook \<times> storage \<Rightarrow> localStorage_hook \<times> storage" where
  "setData a key hs =
     (let h = fst hs;
          d = (case a of Value v \<Rightarrow> v | Updater f \<Rightarrow> f (data h))
      in useLocalStorage_render key (h\<lparr>data := d\<rparr>, snd hs))"

subsection \<open>Dependency arrays\<close>

text \<open>
  React compares the dependency array of a render with the one of the previous render
  element by element (with \<open>Object.is\<close>, here equality), up to the shorter length.
\<close>

fun areHookInputsEqual :: "'d list \<Rightarrow> 'd list \<Rightarrow> bool" where
  "areHookInputsEqual (a # as) (b # bs) = (a = b \<and> areHookInputsEqual as bs)"
| "areHookInputsEqual _ _ = True"

subsection \<open>\<open>useUpdateEffect\<close> (lines 168--179)\<close>

text \<open>
  The ref \<open>isFirstRender\<close>, the dependency array of the last render, and the number of
  times \<open>callback\<close> has been called so far.
\<close>

record 'd updateEffect_hook =
  isFirstRender :: bool
  effect_deps :: "'d list"
  callback_runs :: nat

text \<open>The body of the effect (lines 172--177).\<close>

definition useUpdateEffect_effect :: "'d updateEffect_hook \<Rightarrow> 'd updateEffect_hook" where
  "useUpdateEffect_effect h =
     (if isFirstRender h then h\<lparr>isFirstRender := False\<rparr>
      else h\<lparr>callback_runs := Suc (callback_runs h)\<rparr>)"

definition useUpdateEffect_mount :: "'d list \<Rightarrow> 'd updateEffect_hook" where
  "useUpdateEffect_mount dependencies =
     useUpdateEffect_effect
       \<lparr>isFirstRender = True, effect_deps = dependencies, callback_runs = 0\<rparr>"

definition useUpdateEffect_render ::
  "'d list \<Rightarrow> 'd updateEffect_hook \<Rightarrow> 'd updateEffect_hook" where
  "useUpdateEffect_render dependencies h =
     (if areHookInputsEqual dependencies (effect_deps h)
      then h\<lparr>effect_deps := dependencies\<rparr>
      else useUpdateEffect_effect (h\<lparr>effect_deps := dependencies\<rparr>))"

text \<open>A component that renders with one dependency array after the other.\<close>

definition useUpdateEffect_renders ::
  "'d list list \<Rightarrow> 'd updateEffect_hook \<Rightarrow> 'd updateEffect_hook" where
  "useUpdateEffect_renders ds h = foldl (\<lambda>h' d. useUpdateEffect_render d h') h ds"

subsection \<open>The window and its event listeners\<close>

text \<open>
  The part of \<open>window\<close> the hooks use: its inner size and its event listeners. A
  listener is an event type and a function object; the number stands for the identity
  of the function object. \<open>addEventListener\<close> ignores a listener that is already
  registered, and \<open>removeEventListener\<close> removes the listener with the same type and
  function object, so the listeners form a set.
\<close>

record window =
  innerWidth :: int
  innerHeight :: int
  listeners :: "(string \<times> nat) set"

definition addEventListener :: "string \<Rightarrow> nat \<Rightarrow> window \<Rightarrow> window" where
  "addEventListener t f w = w\<lparr>listeners := insert (t, f) (listeners w)\<rparr>"

definition removeEventListener :: "string \<Rightarrow> nat \<Rightarrow> window \<Rightarrow> window" where
  "removeEventListener t f w = w\<lparr>listeners := listeners w - {(t, f)}\<rparr>"

subsection \<open>\<open>useWindowSize\<close> (lines 12--36)\<close>

text \<open>
  Widths, heights and coordinates are JavaScript numbers; the hooks only copy them, so
  their type plays no role and they are integers here.
\<close>

record WindowSize =
  width :: int
  height :: int

text \<open>
  The state \<open>windowSize\<close>, and the function object \<open>handleWindowResize\<close> that the
  effect created and that its cleanup holds.
\<close>

record windowSize_hook =
  windowSize :: WindowSize
  resize_fn :: nat

definition handleWindowResize :: "window \<Rightarrow> windowSize_hook \<Rightarrow> windowSize_hook" where
  "handleWindowResize w h =
     h\<lparr>windowSize := \<lparr>width = innerWidth w, height = innerHeight w\<rparr>\<rparr>"

text \<open>
  The first render and the effect (lines 18--33); \<open>fn\<close> is the function object that
  the declaration of \<open>handleWindowResize\<close> creates in this run of the effect.
\<close>

definition useWindowSize_mount :: "nat \<Rightarrow> window \<Rightarrow> windowSize_hook \<times> window" where
  "useWindowSize_mount fn w =
     (let h = \<lparr>windowSize = \<lparr>width = 0, height = 0\<rparr>, resize_fn = fn\<rparr>
      in (handleWindowResize w h, addEventListener ''resize'' fn w))"

definition useWindowSize_unmount :: "windowSize_hook \<times> window \<Rightarrow> window" where
  "useWindowSize_unmount hw = removeEventListener ''resize'' (resize_fn (fst hw)) (snd hw)"

text \<open>
  The browser resizes the window to \<open>nw\<close> by \<open>nh\<close> and dispatches \<open>resize\<close>: the handler
  runs if it is registered.
\<close>

definition resize :: "int \<Rightarrow> int \<Rightarrow> windowSize_hook \<times> window \<Rightarrow> windowSize_hook \<times> window" where
  "resize nw nh hw =
     (let h = fst hw; w = (snd hw)\<lparr>innerWidth := nw, innerHeight := nh\<rparr>
      in (if (''resize'', resize_fn h) \<in> listeners w then handleWindowResize w h else h, w))"

definition resizes ::
  "(int \<times> int) list \<Rightarrow> windowSize_hook \<times> window \<Rightarrow> windowSize_hook \<times> window" where
  "resizes evs hw = foldl (\<lambda>hw' e. resize (fst e) (snd e) hw') hw evs"

subsection \<open>\<open>useMouse\<close> (lines 47--65)\<close>

record MouseEvent =
  clientX :: int
  clientY :: int

record MousePosition =
  x :: int
  y :: int

record mouse_hook =
  mousePosition :: MousePosition
  mousemove_fn :: nat

definition handleMouseMovement :: "MouseEvent \<Rightarrow> mouse_hook \<Rightarrow> mouse_hook" where
  "handleMouseMovement event h =
     h\<lparr>mousePosition := \<lparr>x = clientX event, y = clientY event\<rparr>\<rparr>"

definition useMouse_mount :: "nat \<Rightarrow> window \<Rightarrow> mouse_hook \<times> window" where
  "useMouse_mount fn w =
     (\<lparr>mousePosition = \<lparr>x = 0, y = 0\<rparr>, mousemove_fn = fn\<rparr>,
      addEventListener ''mousemove'' fn w)"

definition useMouse_unmount :: "mouse_hook \<times> window \<Rightarrow> window" where
  "useMouse_unmount hw = removeEventListener ''mousemove'' (mousemove_fn (fst hw)) (snd hw)"

text \<open>The browser dispatches \<open>mousemove\<close> with the event \<open>event\<close>.\<close>

definition mousemove :: "MouseEvent \<Rightarrow> mouse_hook \<times> window \<Rightarrow> mouse_hook \<times> window" where
  "mousemove event hw =
     (let h = fst hw; w = snd hw
      in (if (''mousemove'', mousemove_fn h) \<in> listeners w
          then handleMouseMovement event h else h, w))"

definition mousemoves :: "MouseEvent list \<Rightarrow> mouse_hook \<times> window \<Rightarrow> mouse_hook \<times> window" where
  "mousemoves evs hw = foldl (\<lambda>hw' e. mousemove e hw') hw evs"

subsection \<open>\<open>useKeyboard\<close> (lines 93--99)\<close>

text \<open>
  The effect has no dependency array: it runs after every render, after the cleanup of
  its previous run. The cleanup holds the \<open>eventHandler\<close> of the render that created
  it, which is all the hook has to remember.
\<close>

record keyboard_hook =
  eventHandler :: nat

definition useKeyboard_mount :: "nat \<Rightarrow> window \<Rightarrow> keyboard_hook \<times> window" where
  "useKeyboard_mount eh w = (\<lparr>eventHandler = eh\<rparr>, addEventListener ''keydown'' eh w)"

definition useKeyboard_render :: "nat \<Rightarrow> keyboard_hook \<times> window \<Rightarrow> keyboard_hook \<times> window" where
  "useKeyboard_render eh hw =
     (\<lparr>eventHandler = eh\<rparr>,
      addEventListener ''keydown'' eh
        (removeEventListener ''keydown'' (eventHandler (fst hw)) (snd hw)))"

definition useKeyboard_renders ::
  "nat list \<Rightarrow> keyboard_hook \<times> window \<Rightarrow> keyboard_hook \<times> window" where
  "useKeyboard_renders ehs hw = foldl (\<lambda>hw' eh. useKeyboard_render eh hw') hw ehs"

definition useKeyboard_unmount :: "keyboard_hook \<times> window \<Rightarrow> window" where
  "useKeyboard_unmount hw = removeEventListener ''keydown'' (eventHandler (fst hw)) (snd hw)"

subsection \<open>Timers\<close>

text \<open>
  Time is a counter of milliseconds. The platform's timer table holds the pending
  timers, each with the identifier \<open>setTimeout\<close> returned for it and the time at which
  it is due; identifiers are handed out in increasing order and never reused.
  \<open>clearTimeout\<close> removes the timer with the given identifier, if it is still pending.

  \<open>setTimeout\<close> does not take every delay as it is. A browser converts the delay to a
  signed 32-bit integer (modulo \<open>2^32\<close>) and takes a negative result as 0; Node takes
  every delay that is not between 1 and \<open>2^31 - 1\<close> as 1. So a delay of \<open>2^31\<close>
  milliseconds or more does not make the timer wait that long. \<open>timer_delay\<close> is the
  delay the platform waits for; from 1 to \<open>2^31 - 1\<close> it is the delay given, on both
  platforms. Delays are integers here (the source passes \<open>delay: number\<close> on as it
  is); a browser's minimum delay for deeply nested timers is left out.
  Every timer of \<open>useTimeout\<close> runs the same function \<open>() => callbackRef.current()\<close>;
  \<open>calls\<close> records each call of it: the time, and the callback that the ref held.

  The state of a component using \<open>useTimeout\<close>: the two refs, the arguments of the
  last render (React keeps them as the dependency arrays of the effects and of
  \<open>useCallback\<close>), the generation of the memoised \<open>set\<close> (a new function object
  whenever \<open>delay\<close> changes, and with it a new \<open>reset\<close>; \<open>clear\<close> is one function object
  for the life of the component), and the platform with its clock and timer table.
\<close>

datatype platform = Browser | Node

fun timer_delay :: "platform \<Rightarrow> int \<Rightarrow> nat" where
  "timer_delay Node delay = (if 1 \<le> delay \<and> delay \<le> 2147483647 then nat delay else 1)"
| "timer_delay Browser delay =
     (let w = (delay + 2147483648) mod 4294967296 - 2147483648
      in if w < 0 then 0 else nat w)"

record 'c timeout_hook =
  callbackRef :: 'c
  timeoutRef :: "nat option"
  dep_callback :: 'c
  dep_delay :: int
  set_gen :: nat
  host :: platform
  now :: nat
  next_timer :: nat
  pending :: "(nat \<times> nat) list"
  calls :: "(nat \<times> 'c) list"

definition setTimeout :: "int \<Rightarrow> 'c timeout_hook \<Rightarrow> nat \<times> 'c timeout_hook" where
  "setTimeout delay s =
     (next_timer s,
      s\<lparr>next_timer := Suc (next_timer s),
        pending := pending s @ [(next_timer s, now s + timer_delay (host s) delay)]\<rparr>)"

definition clearTimeout :: "nat \<Rightarrow> 'c timeout_hook \<Rightarrow> 'c timeout_hook" where
  "clearTimeout t s = s\<lparr>pending := filter (\<lambda>p. fst p \<noteq> t) (pending s)\<rparr>"

text \<open>
  Time passes by \<open>dt\<close>: every timer that is due by then fires and leaves the table.
\<close>

definition advance :: "nat \<Rightarrow> 'c timeout_hook \<Rightarrow> 'c timeout_hook" where
  "advance dt s =
     (let t = now s + dt
      in s\<lparr>now := t,
           pending := filter (\<lambda>p. \<not> snd p \<le> t) (pending s),
           calls := calls s @
             map (\<lambda>p. (snd p, callbackRef s)) (filter (\<lambda>p. snd p \<le> t) (pending s))\<rparr>)"

subsection \<open>\<open>useTimeout\<close> (lines 122--149)\<close>

text \<open>
  \<open>set\<close> (lines 130--132) with the \<open>delay\<close> of the render that created it, \<open>clear\<close>
  (lines 134--136) and \<open>reset\<close> (lines 143--146). A timer identifier is truthy, the
  initial \<open>undefined\<close> of \<open>timeoutRef\<close> (\<open>None\<close>) is not.
\<close>

definition timeout_set :: "int \<Rightarrow> 'c timeout_hook \<Rightarrow> 'c timeout_hook" where
  "timeout_set delay s =
     (let r = setTimeout delay s in (snd r)\<lparr>timeoutRef := Some (fst r)\<rparr>)"

definition timeout_clear :: "'c timeout_hook \<Rightarrow> 'c timeout_hook" where
  "timeout_clear s = (case timeoutRef s of None \<Rightarrow> s | Some t \<Rightarrow> clearTimeout t s)"

definition timeout_reset :: "int \<Rightarrow> 'c timeout_hook \<Rightarrow> 'c timeout_hook" where
  "timeout_reset delay s = timeout_set delay (timeout_clear s)"

text \<open>
  The first render on the platform \<open>p\<close> at time \<open>t0\<close>, when the next timer identifier
  is \<open>n0\<close>: the refs are
  initialised, then the effect of lines 126--128 stores the callback and the effect of
  lines 138--141 calls \<open>set\<close>. The model holds the timers of this component only.
\<close>

definition useTimeout_mount ::
  "'c \<Rightarrow> int \<Rightarrow> platform \<Rightarrow> nat \<Rightarrow> nat \<Rightarrow> 'c timeout_hook" where
  "useTimeout_mount callback delay p t0 n0 =
     timeout_set delay
       \<lparr>callbackRef = callback, timeoutRef = None,
        dep_callback = callback, dep_delay = delay, set_gen = 0, host = p,
        now = t0, next_timer = n0, pending = [], calls = []\<rparr>"

text \<open>
  A later render. \<open>set\<close> is a new function exactly when \<open>delay\<close> changed, so the effect
  of lines 138--141 (dependencies \<open>[delay, set, clear]\<close>) runs again exactly then: first
  its cleanup \<open>clear\<close>, then, after the effect that stores a changed callback, \<open>set\<close>.
\<close>

definition useTimeout_render :: "'c \<Rightarrow> int \<Rightarrow> 'c timeout_hook \<Rightarrow> 'c timeout_hook" where
  "useTimeout_render callback delay s =
     (let changed = (delay \<noteq> dep_delay s);
          s1 = (if changed then timeout_clear s else s);
          s2 = (if callback \<noteq> dep_callback s then s1\<lparr>callbackRef := callback\<rparr> else s1);
          s3 = (if changed then timeout_set delay s2 else s2)
      in s3\<lparr>dep_callback := callback, dep_delay := delay,
            set_gen := (if changed then Suc (set_gen s) else set_gen s)\<rparr>)"

text \<open>Unmounting runs the cleanup of the effect of lines 138--141, which is \<open>clear\<close>.\<close>

definition useTimeout_unmount :: "'c timeout_hook \<Rightarrow> 'c timeout_hook" where
  "useTimeout_unmount s = timeout_clear s"

text \<open>
  What can happen to a mounted component: it renders again, its user calls the
  \<open>reset\<close> or the \<open>clear\<close> returned by the last render, or time passes.
\<close>

datatype 'c timeout_event = Render 'c int | Reset | Clear | Advance nat

fun timeout_step :: "'c timeout_event \<Rightarrow> 'c timeout_hook \<Rightarrow> 'c timeout_hook" where
  "timeout_step (Render callback delay) s = useTimeout_render callback delay s"
| "timeout_step Reset s = timeout_reset (dep_delay s) s"
| "timeout_step Clear s = timeout_clear s"
| "timeout_step (Advance dt) s = advance dt s"

definition timeout_run :: "'c timeout_event list \<Rightarrow> 'c timeout_hook \<Rightarrow> 'c timeout_hook" where
  "timeout_run evs s = foldl (\<lambda>s' e. timeout_step e s') s evs"

text \<open>
  An event that sets no timer while the delay stays \<open>d\<close>: anything but a \<open>reset\<close> or a
  render with another delay.
\<close>

fun sets_no_timer :: "int \<Rightarrow> 'c timeout_event \<Rightarrow> bool" where
  "sets_no_timer d (Render callback delay) = (delay = d)"
| "sets_no_timer d Reset = False"
| "sets_no_timer d Clear = True"
| "sets_no_timer d (Advance dt) = True"

text \<open>
  Every pending timer is the one whose identifier \<open>timeoutRef\<close> holds.
\<close>

definition owns_pending :: "'c timeout_hook \<Rightarrow> bool" where
  "owns_pending s = list_all (\<lambda>p. timeoutRef s = Some (fst p)) (pending s)"

subsection \<open>\<open>useDelay\<close> (lines 157--161)\<close>

text \<open>
  The dependency array \<open>[...dependencies, reset]\<close> of the effect of line 159: the
  caller's values, then the function object \<open>reset\<close>, known by its generation.
\<close>

datatype 'd dep = Val 'd | ResetFn nat

definition reset_deps :: "'d list \<Rightarrow> nat \<Rightarrow> 'd dep list" where
  "reset_deps dependencies gen = map Val dependencies @ [ResetFn gen]"

text \<open>
  The component's state: that of the \<open>useTimeout\<close> it calls, and the dependency array
  of the last render.
\<close>

record ('c, 'd) delay_hook =
  timeout :: "'c timeout_hook"
  delay_deps :: "'d dep list"

text \<open>
  The first render: the effects of \<open>useTimeout\<close>, then \<open>reset\<close> as the effect of line
  159, then \<open>clear\<close> as the effect of line 160. Neither \<open>reset\<close> nor \<open>clear\<close> returns a
  function, so these two effects have no cleanup.
\<close>

definition useDelay_mount ::
  "'c \<Rightarrow> int \<Rightarrow> 'd list \<Rightarrow> platform \<Rightarrow> nat \<Rightarrow> nat \<Rightarrow> ('c, 'd) delay_hook" where
  "useDelay_mount callback delay dependencies p t0 n0 =
     (let s0 = useTimeout_mount callback delay p t0 n0;
          s1 = timeout_reset delay s0;
          s2 = timeout_clear s1
      in \<lparr>timeout = s2, delay_deps = reset_deps dependencies (set_gen s2)\<rparr>)"

text \<open>
  A later render: the cleanup and effects of \<open>useTimeout\<close>, then \<open>reset\<close> if the array
  \<open>[...dependencies, reset]\<close> changed. The effect of line 160 has the array \<open>[]\<close> and
  does not run again.
\<close>

definition useDelay_render ::
  "'c \<Rightarrow> int \<Rightarrow> 'd list \<Rightarrow> ('c, 'd) delay_hook \<Rightarrow> ('c, 'd) delay_hook" where
  "useDelay_render callback delay dependencies h =
     (let s1 = useTimeout_render callback delay (timeout h);
          deps = reset_deps dependencies (set_gen s1);
          s2 = (if areHookInputsEqual deps (delay_deps h) then s1 else timeout_reset delay s1)
      in \<lparr>timeout = s2, delay_deps = deps\<rparr>)"

definition useDelay_unmount :: "('c, 'd) delay_hook \<Rightarrow> ('c, 'd) delay_hook" where
  "useDelay_unmount h = h\<lparr>timeout := useTimeout_unmount (timeout h)\<rparr>"

datatype ('c, 'd) delay_event = DRender 'c int "'d list" | DAdvance nat

fun delay_step :: "('c, 'd) delay_event \<Rightarrow> ('c, 'd) delay_hook \<Rightarrow> ('c, 'd) delay_hook" where
  "delay_step (DRender callback delay dependencies) h =
     useDelay_render callback delay dependencies h"
| "delay_step (DAdvance dt) h = h\<lparr>timeout := advance dt (timeout h)\<rparr>"

definition delay_run ::
  "('c, 'd) delay_event list \<Rightarrow> ('c, 'd) delay_hook \<Rightarrow> ('c, 'd) delay_hook" where
  "delay_run evs h = foldl (\<lambda>h' e. delay_step e h') h evs"

text \<open>
  An event that leaves the delay \<open>d\<close> and the dependencies \<open>ds\<close> as they are: time
  passing, or a render with the same delay and dependencies (and any callback).
\<close>

fun settled :: "int \<Rightarrow> 'd list \<Rightarrow> ('c, 'd) delay_event \<Rightarrow> bool" where
  "settled d ds (DRender callback delay dependencies) = (delay = d \<and> dependencies = ds)"
| "settled d ds (DAdvance dt) = True"

text \<open>The time that passes during a list of events.\<close>

fun elapsed :: "('c, 'd) delay_event list \<Rightarrow> nat" where
  "elapsed [] = 0"
| "elapsed (DAdvance dt # evs) = dt + elapsed evs"
| "elapsed (DRender callback delay dependencies # evs) = elapsed evs"

section \<open>Theorems\<close>

subsection \<open>Helper lemmas on \<open>slice\<close>\<close>

lemma slice_prefix:
  "0 \<le> i \<Longrightarrow> i \<le> int (length xs) \<Longrightarrow> slice xs 0 i = take (nat i) xs"
  by (simp add: slice_def Let_def min_def)

lemma slice_to_last:
  "0 \<le> i \<Longrightarrow> i < int (length xs) \<Longrightarrow>
   slice xs (i + 1) (int (length xs) - 1) = drop (nat i + 1) (butlast xs)"
proof -
  assume i: "0 \<le> i" "i < int (length xs)"
  have "take (nat (int (length xs) - 1 - (i + 1))) (drop (nat (i + 1)) xs)
        = drop (nat (i + 1)) (take (length xs - 1) xs)"
    using i by (simp add: drop_take nat_diff_distrib' nat_add_distrib)
  then show ?thesis
    using i by (simp add: slice_def Let_def min_def butlast_conv_take nat_add_distrib)
qed

subsection \<open>\<open>useToggle\<close>\<close>

text \<open>
  Claim C10. Called with a boolean \<open>b\<close>, \<open>changeToggle\<close> sets the state to \<open>b\<close> whatever
  the state was; called with \<open>null\<close>, it negates the state, so two such calls in a row
  give the state back, also from the initial state of \<open>useToggle\<close>.
\<close>

theorem useToggle_changeToggle:
  "changeToggle (Some b) prev = b \<and>
   changeToggle None prev = (\<not> prev) \<and>
   changeToggle None (changeToggle None prev) = prev \<and>
   changeToggle None (changeToggle None (useToggle d)) = useToggle d"
  by (simp add: changeToggle_def)

subsection \<open>\<open>useArray\<close>\<close>

text \<open>
  Claim C2. For an array \<open>prev\<close> and an index \<open>0 \<le> i < length prev\<close>, \<open>remove(i)\<close> gives
  \<open>prev.slice(0, i)\<close> followed by \<open>prev.slice(i + 1, length - 1)\<close>, and \<open>update(i, v)\<close>
  the same with \<open>v\<close> in between. The second slice stops before the last element: both
  results take what follows index \<open>i\<close> from \<open>prev\<close> without its last element. For
  \<open>i < length - 1\<close> the result of \<open>remove\<close> has \<open>length - 2\<close> elements and that of
  \<open>update\<close> has \<open>length - 1\<close>: they are the list with element \<open>i\<close> removed (or
  replaced), less its last element. For \<open>i = length - 1\<close> the element at \<open>i\<close> is the
  last one itself.
\<close>

theorem useArray_remove_update_drop_last:
  assumes "0 \<le> i" and "i < int (length prev)"
  shows "array_remove i prev = slice prev 0 i @ slice prev (i + 1) (int (length prev) - 1) \<and>
     array_update i v prev = slice prev 0 i @ [v] @ slice prev (i + 1) (int (length prev) - 1) \<and>
     array_remove i prev = take (nat i) prev @ drop (nat i + 1) (butlast prev) \<and>
     array_update i v prev = take (nat i) prev @ [v] @ drop (nat i + 1) (butlast prev) \<and>
     (i < int (length prev) - 1 \<longrightarrow>
        length (array_remove i prev) = length prev - 2 \<and>
        length (array_update i v prev) = length prev - 1 \<and>
        array_remove i prev = butlast (take (nat i) prev @ drop (nat i + 1) prev) \<and>
        array_update i v prev = butlast (prev[nat i := v]))"
proof -
  have pre: "slice prev 0 i = take (nat i) prev"
    using assms by (simp add: slice_prefix)
  have post: "slice prev (i + 1) (int (length prev) - 1) = drop (nat i + 1) (butlast prev)"
    using assms by (rule slice_to_last)
  have rem: "array_remove i prev = take (nat i) prev @ drop (nat i + 1) (butlast prev)"
    by (simp add: array_remove_def pre post)
  have upd: "array_update i v prev = take (nat i) prev @ [v] @ drop (nat i + 1) (butlast prev)"
    by (simp add: array_update_def pre post)
  have inner: "length (array_remove i prev) = length prev - 2 \<and>
        length (array_update i v prev) = length prev - 1 \<and>
        array_remove i prev = butlast (take (nat i) prev @ drop (nat i + 1) prev) \<and>
        array_update i v prev = butlast (prev[nat i := v])"
    if lt: "i < int (length prev) - 1"
  proof -
    have n: "nat i + 1 < length prev" using assms lt by linarith
    then have ne: "drop (nat i + 1) prev \<noteq> []" by simp
    have bl: "butlast (drop (nat i + 1) prev) = drop (nat i + 1) (butlast prev)"
      by (simp add: butlast_drop)
    have l1: "length (array_remove i prev) = length prev - 2"
      using n by (simp add: rem min_def)
    have l2: "length (array_update i v prev) = length prev - 1"
      using n by (simp add: upd min_def)
    have b1: "array_remove i prev = butlast (take (nat i) prev @ drop (nat i + 1) prev)"
      using ne bl by (simp add: rem butlast_append)
    have "prev[nat i := v] = take (nat i) prev @ [v] @ drop (nat i + 1) prev"
      using n by (simp add: upd_conv_take_nth_drop)
    then have b2: "array_update i v prev = butlast (prev[nat i := v])"
      using ne bl by (simp add: upd butlast_append)
    from l1 l2 b1 b2 show ?thesis by simp
  qed
  have c1: "array_remove i prev = slice prev 0 i @ slice prev (i + 1) (int (length prev) - 1)"
    by (simp add: array_remove_def)
  have c2: "array_update i v prev = slice prev 0 i @ [v] @ slice prev (i + 1) (int (length prev) - 1)"
    by (simp add: array_update_def)
  from c1 c2 rem upd inner show ?thesis
    by blast
qed

text \<open>
  The theorem at \<open>[10, 20, 30, 40]\<close> and index 1: \<open>remove\<close> leaves \<open>[10, 30]\<close>, and
  \<open>update\<close> with 99 leaves \<open>[10, 99, 30]\<close>; the 40 is gone from both.
\<close>

theorem useArray_remove_update_drop_last_witness:
  "(0::int) \<le> 1 \<and> (1::int) < int (length [10, 20, 30, 40 :: nat]) \<and>
   (1::int) < int (length [10, 20, 30, 40 :: nat]) - 1 \<and>
   array_remove 1 [10, 20, 30, 40 :: nat] = [10, 30] \<and>
   array_update 1 99 [10, 20, 30, 40 :: nat] = [10, 99, 30] \<and>
   length (array_remove 1 [10, 20, 30, 40 :: nat]) = 2"
  using useArray_remove_update_drop_last [of 1 "[10, 20, 30, 40 :: nat]" 99]
  by (simp add: array_remove_def array_update_def slice_def)

subsection \<open>\<open>useLocalStorage\<close>\<close>

lemma useLocalStorage_init_cases:
  "useLocalStorage_init key initial st =
     (if st key = None \<or> st key = Some [] then initial else the (st key))"
  by (auto simp: useLocalStorage_init_def getItem_def split: option.splits)

lemma useLocalStorage_render_writes:
  "snd (useLocalStorage_render key (h, st)) =
     (if key = dep_key h \<and> data h = dep_data h then st else st(key \<mapsto> data h))"
  by (simp add: useLocalStorage_render_def setItem_def Let_def)

text \<open>
  Claim C1 says that the state starts as the value stored under the key whenever one
  exists. The storage below holds the empty string under \<open>theme\<close>: the state starts as
  the initial value \<open>light\<close> instead, and the effect stores \<open>light\<close> over the empty string.
  (The documentation of the hook gives \<open>initial\<close> as the value used if the item does
  not exist.) The lemmas above give the rest of the claim: the stored value is the
  initial state when it is not empty, \<open>initial\<close> when the key is absent, and a render
  writes \<open>data\<close> under \<open>key\<close> exactly when \<open>key\<close> or \<open>data\<close> changed.
\<close>

theorem useLocalStorage_empty_string_replaced:
  "data (fst (useLocalStorage_mount ''theme'' ''light'' (Map.empty(''theme'' \<mapsto> '''')))) = ''light'' \<and>
   snd (useLocalStorage_mount ''theme'' ''light'' (Map.empty(''theme'' \<mapsto> ''''))) ''theme'' = Some ''light''"
  by (simp add: useLocalStorage_mount_def useLocalStorage_init_def getItem_def setItem_def Let_def)

text \<open>
  Claim C9. When the storage holds the empty string under the key, the hook does what
  it does when the key is absent: the state starts as \<open>initial\<close>, and the effect of the
  first render stores \<open>initial\<close> under the key, over the empty string.
\<close>

theorem useLocalStorage_empty_is_absent:
  assumes "getItem st key = Some []"
  shows "data (fst (useLocalStorage_mount key initial st)) = initial \<and>
         getItem (snd (useLocalStorage_mount key initial st)) key = Some initial \<and>
         useLocalStorage_mount key initial st =
           useLocalStorage_mount key initial (st(key := None))"
  using assms
  by (simp add: useLocalStorage_mount_def useLocalStorage_init_def getItem_def setItem_def)

theorem useLocalStorage_empty_is_absent_witness:
  "getItem (Map.empty(''k'' \<mapsto> [])) ''k'' = Some [] \<and>
   data (fst (useLocalStorage_mount ''k'' ''v0'' (Map.empty(''k'' \<mapsto> [])))) = ''v0'' \<and>
   getItem (snd (useLocalStorage_mount ''k'' ''v0'' (Map.empty(''k'' \<mapsto> [])))) ''k'' = Some ''v0''"
proof -
  have h: "getItem (Map.empty(''k'' \<mapsto> [])) ''k'' = Some []"
    by (simp add: getItem_def)
  from useLocalStorage_empty_is_absent [OF h, of "''v0''"] h show ?thesis
    by blast
qed

subsection \<open>\<open>useUpdateEffect\<close>\<close>

lemma areHookInputsEqual_refl: "areHookInputsEqual ds ds"
  by (induction ds) simp_all

lemma useUpdateEffect_renders_snoc:
  "useUpdateEffect_renders (ds @ [d]) h = useUpdateEffect_render d (useUpdateEffect_renders ds h)"
  by (simp add: useUpdateEffect_renders_def)

lemma useUpdateEffect_reachable:
  "isFirstRender (useUpdateEffect_renders ds (useUpdateEffect_mount d0)) = False \<and>
   effect_deps (useUpdateEffect_renders ds (useUpdateEffect_mount d0)) = last (d0 # ds)"
proof (induction ds rule: rev_induct)
  case Nil
  show ?case
    by (simp add: useUpdateEffect_renders_def useUpdateEffect_mount_def useUpdateEffect_effect_def)
next
  case (snoc d ds)
  then show ?case
    by (simp add: useUpdateEffect_renders_snoc useUpdateEffect_render_def
        useUpdateEffect_effect_def)
qed

text \<open>
  Claim C5. The first render does not call the callback. A later render, after any
  number of renders, calls it once if the comparison of its dependency array with the
  array of the render before reports a change, and not at all if it does not.
\<close>

theorem useUpdateEffect_runs_on_change:
  "callback_runs (useUpdateEffect_mount d0) = 0 \<and>
   callback_runs (useUpdateEffect_render d (useUpdateEffect_renders ds (useUpdateEffect_mount d0)))
     = callback_runs (useUpdateEffect_renders ds (useUpdateEffect_mount d0))
       + (if areHookInputsEqual d (last (d0 # ds)) then 0 else 1)"
proof -
  let ?h = "useUpdateEffect_renders ds (useUpdateEffect_mount d0)"
  have first: "callback_runs (useUpdateEffect_mount d0) = 0"
    by (simp add: useUpdateEffect_mount_def useUpdateEffect_effect_def)
  have r: "isFirstRender ?h = False" "effect_deps ?h = last (d0 # ds)"
    using useUpdateEffect_reachable [of ds d0] by simp_all
  have "callback_runs (useUpdateEffect_render d ?h)
     = callback_runs ?h + (if areHookInputsEqual d (last (d0 # ds)) then 0 else 1)"
    unfolding useUpdateEffect_render_def useUpdateEffect_effect_def
    using r by simp
  with first show ?thesis by simp
qed

subsection \<open>\<open>useWindowSize\<close>, \<open>useMouse\<close>, \<open>useKeyboard\<close>\<close>

lemma resizes_snoc: "resizes (evs @ [e]) hw = resize (fst e) (snd e) (resizes evs hw)"
  by (simp add: resizes_def)

lemma resize_keeps:
  "resize_fn (fst (resize nw nh hw)) = resize_fn (fst hw) \<and>
   listeners (snd (resize nw nh hw)) = listeners (snd hw)"
  by (simp add: resize_def handleWindowResize_def Let_def)

lemma resizes_keeps:
  "resize_fn (fst (resizes evs hw)) = resize_fn (fst hw) \<and>
   listeners (snd (resizes evs hw)) = listeners (snd hw)"
proof (induction evs rule: rev_induct)
  case Nil
  show ?case by (simp add: resizes_def)
next
  case (snoc e evs)
  then show ?case by (simp add: resizes_snoc resize_keeps)
qed

lemma useWindowSize_mount_registers:
  "resize_fn (fst (useWindowSize_mount fn w)) = fn \<and>
   listeners (snd (useWindowSize_mount fn w)) = insert (''resize'', fn) (listeners w)"
  by (simp add: useWindowSize_mount_def handleWindowResize_def addEventListener_def Let_def)

lemma mousemoves_snoc: "mousemoves (evs @ [e]) hw = mousemove e (mousemoves evs hw)"
  by (simp add: mousemoves_def)

lemma mousemove_keeps:
  "mousemove_fn (fst (mousemove e hw)) = mousemove_fn (fst hw) \<and>
   listeners (snd (mousemove e hw)) = listeners (snd hw)"
  by (simp add: mousemove_def handleMouseMovement_def Let_def)

lemma mousemoves_keeps:
  "mousemove_fn (fst (mousemoves evs hw)) = mousemove_fn (fst hw) \<and>
   listeners (snd (mousemoves evs hw)) = listeners (snd hw)"
proof (induction evs rule: rev_induct)
  case Nil
  show ?case by (simp add: mousemoves_def)
next
  case (snoc e evs)
  then show ?case by (simp add: mousemoves_snoc mousemove_keeps)
qed

lemma useMouse_mount_registers:
  "mousemove_fn (fst (useMouse_mount fn w)) = fn \<and>
   listeners (snd (useMouse_mount fn w)) = insert (''mousemove'', fn) (listeners w)"
  by (simp add: useMouse_mount_def addEventListener_def)

text \<open>
  Claim C6. For a mounted component, after any number of \<open>resize\<close> events, the state of
  \<open>useWindowSize\<close> after a \<open>resize\<close> event is the record of the window's \<open>innerWidth\<close>
  and \<open>innerHeight\<close> at that event (the first effect already stores the size at the
  mount); and after any number of \<open>mousemove\<close> events, the state of \<open>useMouse\<close> after a
  \<open>mousemove\<close> event is the record of the event's \<open>clientX\<close> and \<open>clientY\<close>. The states
  are the records \<open>WindowSize\<close> and \<open>MousePosition\<close>, of two fields each.
\<close>

theorem window_size_and_mouse_state:
  "windowSize (fst (useWindowSize_mount fn w)) = \<lparr>width = innerWidth w, height = innerHeight w\<rparr> \<and>
   windowSize (fst (resize nw nh (resizes evs (useWindowSize_mount fn w))))
     = \<lparr>width = innerWidth (snd (resize nw nh (resizes evs (useWindowSize_mount fn w)))),
        height = innerHeight (snd (resize nw nh (resizes evs (useWindowSize_mount fn w))))\<rparr> \<and>
   windowSize (fst (resize nw nh (resizes evs (useWindowSize_mount fn w))))
     = \<lparr>width = nw, height = nh\<rparr> \<and>
   innerWidth (snd (resize nw nh (resizes evs (useWindowSize_mount fn w)))) = nw \<and>
   innerHeight (snd (resize nw nh (resizes evs (useWindowSize_mount fn w)))) = nh \<and>
   mousePosition (fst (useMouse_mount fm w)) = \<lparr>x = 0, y = 0\<rparr> \<and>
   mousePosition (fst (mousemove event (mousemoves mvs (useMouse_mount fm w))))
     = \<lparr>x = clientX event, y = clientY event\<rparr>"
proof -
  let ?hw = "resizes evs (useWindowSize_mount fn w)"
  have reg: "(''resize'', resize_fn (fst ?hw)) \<in> listeners (snd ?hw)"
    by (simp add: resizes_keeps useWindowSize_mount_registers)
  have a: "windowSize (fst (useWindowSize_mount fn w))
      = \<lparr>width = innerWidth w, height = innerHeight w\<rparr>"
    by (simp add: useWindowSize_mount_def handleWindowResize_def Let_def)
  have b: "windowSize (fst (resize nw nh ?hw)) = \<lparr>width = nw, height = nh\<rparr>"
    using reg by (simp add: resize_def handleWindowResize_def Let_def)
  have c: "innerWidth (snd (resize nw nh ?hw)) = nw" "innerHeight (snd (resize nw nh ?hw)) = nh"
    by (simp_all add: resize_def Let_def)
  let ?hm = "mousemoves mvs (useMouse_mount fm w)"
  have regm: "(''mousemove'', mousemove_fn (fst ?hm)) \<in> listeners (snd ?hm)"
    by (simp add: mousemoves_keeps useMouse_mount_registers)
  have d: "mousePosition (fst (useMouse_mount fm w)) = \<lparr>x = 0, y = 0\<rparr>"
    by (simp add: useMouse_mount_def)
  have e: "mousePosition (fst (mousemove event ?hm)) = \<lparr>x = clientX event, y = clientY event\<rparr>"
    using regm by (simp add: mousemove_def handleMouseMovement_def Let_def)
  from a b c d e show ?thesis by simp
qed

lemma useKeyboard_renders_snoc:
  "useKeyboard_renders (ehs @ [e]) hw = useKeyboard_render e (useKeyboard_renders ehs hw)"
  by (simp add: useKeyboard_renders_def)

lemma useKeyboard_reachable:
  "eventHandler (fst (useKeyboard_renders ehs (useKeyboard_mount eh w))) = last (eh # ehs) \<and>
   listeners (snd (useKeyboard_renders ehs (useKeyboard_mount eh w)))
     = insert (''keydown'', last (eh # ehs)) (listeners w - Pair ''keydown'' ` set (eh # ehs))"
proof (induction ehs rule: rev_induct)
  case Nil
  show ?case
    by (auto simp: useKeyboard_renders_def useKeyboard_mount_def addEventListener_def)
next
  case (snoc e ehs)
  then show ?case
    by (auto simp: useKeyboard_renders_snoc useKeyboard_render_def addEventListener_def
        removeEventListener_def)
qed

text \<open>
  Claim C7. The effect of \<open>useWindowSize\<close> adds the listener \<open>(resize, fn)\<close> and its
  cleanup removes that same listener; likewise \<open>(mousemove, fm)\<close> for \<open>useMouse\<close>. The
  effect of \<open>useKeyboard\<close> runs after every render: at any moment the window holds the
  handler of the last render and none of the earlier ones, and the cleanup at the
  unmount removes that one too. No other listener of the window is touched, so a
  window in which the handlers were not registered before is left as it was.
\<close>

theorem cleanup_removes_registered_listener:
  "listeners (snd (useWindowSize_mount fn w)) = insert (''resize'', fn) (listeners w) \<and>
   listeners (useWindowSize_unmount (resizes evs (useWindowSize_mount fn w)))
     = listeners w - {(''resize'', fn)} \<and>
   listeners (snd (useMouse_mount fm w)) = insert (''mousemove'', fm) (listeners w) \<and>
   listeners (useMouse_unmount (mousemoves mvs (useMouse_mount fm w)))
     = listeners w - {(''mousemove'', fm)} \<and>
   listeners (snd (useKeyboard_renders ehs (useKeyboard_mount eh w)))
     = insert (''keydown'', last (eh # ehs)) (listeners w - Pair ''keydown'' ` set (eh # ehs)) \<and>
   listeners (useKeyboard_unmount (useKeyboard_renders ehs (useKeyboard_mount eh w)))
     = listeners w - Pair ''keydown'' ` set (eh # ehs) \<and>
   ((''resize'', fn) \<notin> listeners w \<longrightarrow>
      listeners (useWindowSize_unmount (resizes evs (useWindowSize_mount fn w))) = listeners w) \<and>
   ((''mousemove'', fm) \<notin> listeners w \<longrightarrow>
      listeners (useMouse_unmount (mousemoves mvs (useMouse_mount fm w))) = listeners w) \<and>
   (listeners w \<inter> Pair ''keydown'' ` set (eh # ehs) = {} \<longrightarrow>
      listeners (useKeyboard_unmount (useKeyboard_renders ehs (useKeyboard_mount eh w)))
        = listeners w)"
proof -
  have a: "listeners (useWindowSize_unmount (resizes evs (useWindowSize_mount fn w)))
     = listeners w - {(''resize'', fn)}"
    by (simp add: useWindowSize_unmount_def removeEventListener_def resizes_keeps
        useWindowSize_mount_registers)
  have b: "listeners (useMouse_unmount (mousemoves mvs (useMouse_mount fm w)))
     = listeners w - {(''mousemove'', fm)}"
    by (simp add: useMouse_unmount_def removeEventListener_def mousemoves_keeps
        useMouse_mount_registers)
  have c: "listeners (useKeyboard_unmount (useKeyboard_renders ehs (useKeyboard_mount eh w)))
     = listeners w - Pair ''keydown'' ` set (eh # ehs)"
    unfolding useKeyboard_unmount_def removeEventListener_def
    using useKeyboard_reachable [of ehs eh w] by auto
  have a': "(''resize'', fn) \<notin> listeners w \<longrightarrow>
      listeners (useWindowSize_unmount (resizes evs (useWindowSize_mount fn w))) = listeners w"
    using a by simp
  have b': "(''mousemove'', fm) \<notin> listeners w \<longrightarrow>
      listeners (useMouse_unmount (mousemoves mvs (useMouse_mount fm w))) = listeners w"
    using b by simp
  have c': "listeners w \<inter> Pair ''keydown'' ` set (eh # ehs) = {} \<longrightarrow>
      listeners (useKeyboard_unmount (useKeyboard_renders ehs (useKeyboard_mount eh w)))
        = listeners w"
    using c by auto
  from a b c a' b' c' useWindowSize_mount_registers [of fn w] useMouse_mount_registers [of fm w]
    useKeyboard_reachable [of ehs eh w]
  show ?thesis by blast
qed

theorem cleanup_removes_registered_listener_witness:
  "(''resize'', 1) \<notin> {(''click'', 7::nat)} \<and> (''mousemove'', 2) \<notin> {(''click'', 7::nat)} \<and>
   {(''click'', 7::nat)} \<inter> Pair ''keydown'' ` set (3 # [4, 5]) = {} \<and>
   listeners (useWindowSize_unmount (resizes [(1024, 768)]
      (useWindowSize_mount 1 \<lparr>innerWidth = 800, innerHeight = 600, listeners = {(''click'', 7)}\<rparr>)))
     = {(''click'', 7)} \<and>
   listeners (useMouse_unmount (mousemoves [\<lparr>clientX = 3, clientY = 4\<rparr>]
      (useMouse_mount 2 \<lparr>innerWidth = 800, innerHeight = 600, listeners = {(''click'', 7)}\<rparr>)))
     = {(''click'', 7)} \<and>
   listeners (useKeyboard_unmount (useKeyboard_renders [4, 5]
      (useKeyboard_mount 3 \<lparr>innerWidth = 800, innerHeight = 600, listeners = {(''click'', 7)}\<rparr>)))
     = {(''click'', 7)}"
  using cleanup_removes_registered_listener
    [of 1 "\<lparr>innerWidth = 800, innerHeight = 600, listeners = {(''click'', 7)}\<rparr>"
        "[(1024, 768)]" 2 "[\<lparr>clientX = 3, clientY = 4\<rparr>]" "[4, 5]" 3]
  by simp

subsection \<open>\<open>useTimeout\<close>\<close>

lemma timeout_clear_fields:
  "now (timeout_clear s) = now s"
  "calls (timeout_clear s) = calls s"
  "next_timer (timeout_clear s) = next_timer s"
  "callbackRef (timeout_clear s) = callbackRef s"
  "dep_callback (timeout_clear s) = dep_callback s"
  "dep_delay (timeout_clear s) = dep_delay s"
  "set_gen (timeout_clear s) = set_gen s"
  "timeoutRef (timeout_clear s) = timeoutRef s"
  "host (timeout_clear s) = host s"
  by (simp_all add: timeout_clear_def clearTimeout_def split: option.splits)

lemma timeout_set_fields:
  "now (timeout_set d s) = now s"
  "calls (timeout_set d s) = calls s"
  "next_timer (timeout_set d s) = Suc (next_timer s)"
  "callbackRef (timeout_set d s) = callbackRef s"
  "dep_callback (timeout_set d s) = dep_callback s"
  "dep_delay (timeout_set d s) = dep_delay s"
  "set_gen (timeout_set d s) = set_gen s"
  "timeoutRef (timeout_set d s) = Some (next_timer s)"
  "host (timeout_set d s) = host s"
  "pending (timeout_set d s) = pending s @ [(next_timer s, now s + timer_delay (host s) d)]"
  by (simp_all add: timeout_set_def setTimeout_def Let_def)

lemma timeout_clear_pending:
  "owns_pending s \<Longrightarrow> pending (timeout_clear s) = []"
  by (cases "timeoutRef s"; cases "pending s")
     (auto simp: owns_pending_def timeout_clear_def clearTimeout_def list_all_iff filter_empty_conv)

lemma timeout_reset_fields:
  "now (timeout_reset d s) = now s"
  "calls (timeout_reset d s) = calls s"
  "next_timer (timeout_reset d s) = Suc (next_timer s)"
  "callbackRef (timeout_reset d s) = callbackRef s"
  "dep_callback (timeout_reset d s) = dep_callback s"
  "dep_delay (timeout_reset d s) = dep_delay s"
  "set_gen (timeout_reset d s) = set_gen s"
  "timeoutRef (timeout_reset d s) = Some (next_timer s)"
  "host (timeout_reset d s) = host s"
  by (simp_all add: timeout_reset_def timeout_set_fields timeout_clear_fields)

lemma timeout_reset_pending:
  "owns_pending s \<Longrightarrow>
   pending (timeout_reset d s) = [(next_timer s, now s + timer_delay (host s) d)]"
  by (simp add: timeout_reset_def timeout_set_fields timeout_clear_fields timeout_clear_pending)

lemma owns_pending_clear: "owns_pending s \<Longrightarrow> owns_pending (timeout_clear s)"
  by (simp add: owns_pending_def timeout_clear_pending [unfolded owns_pending_def])

lemma owns_pending_reset: "owns_pending s \<Longrightarrow> owns_pending (timeout_reset d s)"
  by (simp add: owns_pending_def timeout_reset_pending [unfolded owns_pending_def]
      timeout_reset_fields)

lemma advance_fields:
  "now (advance dt s) = now s + dt"
  "next_timer (advance dt s) = next_timer s"
  "callbackRef (advance dt s) = callbackRef s"
  "dep_callback (advance dt s) = dep_callback s"
  "dep_delay (advance dt s) = dep_delay s"
  "set_gen (advance dt s) = set_gen s"
  "timeoutRef (advance dt s) = timeoutRef s"
  "host (advance dt s) = host s"
  "pending (advance dt s) = filter (\<lambda>p. \<not> snd p \<le> now s + dt) (pending s)"
  "calls (advance dt s) = calls s @
     map (\<lambda>p. (snd p, callbackRef s)) (filter (\<lambda>p. snd p \<le> now s + dt) (pending s))"
  by (simp_all add: advance_def Let_def)

lemma owns_pending_advance: "owns_pending s \<Longrightarrow> owns_pending (advance dt s)"
  by (simp add: owns_pending_def advance_fields list_all_iff)

lemma useTimeout_render_fields:
  "now (useTimeout_render callback delay s) = now s"
  "calls (useTimeout_render callback delay s) = calls s"
  "dep_callback (useTimeout_render callback delay s) = callback"
  "dep_delay (useTimeout_render callback delay s) = delay"
  "host (useTimeout_render callback delay s) = host s"
  "callbackRef (useTimeout_render callback delay s) =
     (if callback \<noteq> dep_callback s then callback else callbackRef s)"
  "set_gen (useTimeout_render callback delay s) =
     (if delay \<noteq> dep_delay s then Suc (set_gen s) else set_gen s)"
  "next_timer (useTimeout_render callback delay s) =
     (if delay \<noteq> dep_delay s then Suc (next_timer s) else next_timer s)"
  "timeoutRef (useTimeout_render callback delay s) =
     (if delay \<noteq> dep_delay s then Some (next_timer s) else timeoutRef s)"
  "pending (useTimeout_render callback delay s) =
     (if delay \<noteq> dep_delay s
      then pending (timeout_clear s) @ [(next_timer s, now s + timer_delay (host s) delay)]
      else pending s)"
  by (simp_all add: useTimeout_render_def Let_def timeout_set_fields timeout_clear_fields)

lemma owns_pending_render:
  "owns_pending s \<Longrightarrow> owns_pending (useTimeout_render callback delay s)"
  by (simp add: owns_pending_def useTimeout_render_fields
      timeout_clear_pending [unfolded owns_pending_def])

lemma owns_pending_mount: "owns_pending (useTimeout_mount callback delay p t0 n0)"
  by (simp add: owns_pending_def useTimeout_mount_def timeout_set_fields)

lemma owns_pending_step: "owns_pending s \<Longrightarrow> owns_pending (timeout_step e s)"
  by (cases e)
     (simp_all add: owns_pending_render owns_pending_reset owns_pending_clear owns_pending_advance)

lemma timeout_run_Cons: "timeout_run (e # evs) s = timeout_run evs (timeout_step e s)"
  by (simp add: timeout_run_def)

lemma owns_pending_run: "owns_pending s \<Longrightarrow> owns_pending (timeout_run evs s)"
proof (induction evs arbitrary: s)
  case Nil
  then show ?case by (simp add: timeout_run_def)
next
  case (Cons e evs)
  then show ?case by (simp add: timeout_run_Cons owns_pending_step)
qed

lemma host_step: "host (timeout_step e s) = host s"
  by (cases e)
     (simp_all add: useTimeout_render_fields timeout_reset_fields timeout_clear_fields
        advance_fields)

lemma host_run: "host (timeout_run evs s) = host s"
proof (induction evs arbitrary: s)
  case Nil
  then show ?case by (simp add: timeout_run_def)
next
  case (Cons e evs)
  then show ?case by (simp add: timeout_run_Cons host_step)
qed

lemma owns_pending_reachable:
  "owns_pending (timeout_run evs (useTimeout_mount callback delay p t0 n0))"
  by (simp add: owns_pending_run owns_pending_mount)

text \<open>
Nothing pending: events that set no timer call nothing.
\<close>

lemma quiet_step:
  assumes "pending s = []" and "sets_no_timer (dep_delay s) e"
  shows "pending (timeout_step e s) = [] \<and> calls (timeout_step e s) = calls s \<and>
         dep_delay (timeout_step e s) = dep_delay s"
proof (cases e)
  case (Render callback delay)
  with assms show ?thesis by (simp add: useTimeout_render_fields)
next
  case Reset
  with assms show ?thesis by simp
next
  case Clear
  with assms show ?thesis
    by (simp add: timeout_clear_fields timeout_clear_def clearTimeout_def split: option.splits)
next
  case (Advance dt)
  with assms show ?thesis by (simp add: advance_fields)
qed

lemma quiet_run:
  "pending s = [] \<Longrightarrow> list_all (sets_no_timer (dep_delay s)) evs \<Longrightarrow>
   pending (timeout_run evs s) = [] \<and> calls (timeout_run evs s) = calls s"
proof (induction evs arbitrary: s)
  case Nil
  then show ?case by (simp add: timeout_run_def)
next
  case (Cons e evs)
  from Cons.prems have q: "sets_no_timer (dep_delay s) e"
    and qs: "list_all (sets_no_timer (dep_delay s)) evs" by simp_all
  from quiet_step [OF Cons.prems(1) q]
  have st: "pending (timeout_step e s) = []" "calls (timeout_step e s) = calls s"
    "dep_delay (timeout_step e s) = dep_delay s" by simp_all
  from Cons.IH [of "timeout_step e s"] st qs show ?case
    by (simp add: timeout_run_Cons)
qed

text \<open>
One timer pending: it fires once, when its time has come.
\<close>

lemma advances_none:
  "pending s = [] \<Longrightarrow>
   calls (timeout_run (map Advance dts) s) = calls s"
proof (induction dts arbitrary: s)
  case Nil
  then show ?case by (simp add: timeout_run_def)
next
  case (Cons dt dts)
  then show ?case by (simp add: timeout_run_Cons advance_fields)
qed

lemma advances_one:
  "pending s = [(t, due)] \<Longrightarrow>
   calls (timeout_run (map Advance (dt # dts)) s) =
     calls s @ (if due \<le> now s + dt + sum_list dts then [(due, callbackRef s)] else [])"
proof (induction dts arbitrary: dt s)
  case Nil
  then show ?case by (simp add: timeout_run_def advance_fields)
next
  case (Cons dt' dts)
  show ?case
  proof (cases "due \<le> now s + dt")
    case True
    with Cons.prems have p: "pending (advance dt s) = []"
      and c: "calls (advance dt s) = calls s @ [(due, callbackRef s)]"
      by (simp_all add: advance_fields)
    from advances_none [OF p, of "dt' # dts"] c True show ?thesis
      by (simp add: timeout_run_Cons)
  next
    case False
    with Cons.prems have p: "pending (advance dt s) = [(t, due)]"
      and c: "calls (advance dt s) = calls s"
      by (simp_all add: advance_fields)
    from Cons.IH [OF p, of dt'] c show ?thesis
      by (simp add: timeout_run_Cons advance_fields add.assoc)
  qed
qed

lemma useTimeout_mount_fields:
  "pending (useTimeout_mount callback delay p t0 n0) = [(n0, t0 + timer_delay p delay)]"
  "host (useTimeout_mount callback delay p t0 n0) = p"
  "calls (useTimeout_mount callback delay p t0 n0) = []"
  "now (useTimeout_mount callback delay p t0 n0) = t0"
  "callbackRef (useTimeout_mount callback delay p t0 n0) = callback"
  "dep_delay (useTimeout_mount callback delay p t0 n0) = delay"
  "set_gen (useTimeout_mount callback delay p t0 n0) = 0"
  "timeoutRef (useTimeout_mount callback delay p t0 n0) = Some n0"
  "next_timer (useTimeout_mount callback delay p t0 n0) = Suc n0"
  by (simp_all add: useTimeout_mount_def timeout_set_fields)

lemma timer_delay_in_range:
  "1 \<le> d \<Longrightarrow> d \<le> 2147483647 \<Longrightarrow> timer_delay p d = nat d"
  by (cases p) (simp_all add: Let_def)

text \<open>
  Claim C4 says that, for every delay, the callback fires after the delay. With a
  delay of \<open>2^31\<close> milliseconds, which neither platform's timer takes as it is, the
  callback has been called when one millisecond has passed: at time 1 on Node, at time
  0 in a browser.
\<close>

theorem useTimeout_large_delay_fires_at_once:
  "calls (timeout_run [Advance 1] (useTimeout_mount (7::nat) 2147483648 Node 0 3)) = [(1, 7)] \<and>
   calls (timeout_run [Advance 1] (useTimeout_mount (7::nat) 2147483648 Browser 0 3)) = [(0, 7)]"
  by (simp add: timeout_run_def useTimeout_mount_def timeout_set_def setTimeout_def
      advance_def Let_def)

text \<open>
  Claim C4, amended. A delay \<open>d\<close> from 1 to \<open>2^31 - 1\<close> is the delay the platform's
  timer waits for; any other delay is replaced as \<open>timer_delay\<close> says. Mounted on the
  platform \<open>p\<close> at time \<open>t0\<close> with callback \<open>cb\<close> and delay \<open>d\<close>, and left alone, the
  hook calls \<open>cb\<close> once, at \<open>t0 + timer_delay p d\<close> (for \<open>d\<close> from 1 to \<open>2^31 - 1\<close>: at
  \<open>t0 + d\<close>), and never again. In every state \<open>s\<close> that the component reaches by
  renders, calls of \<open>reset\<close> and \<open>clear\<close>, and the passing of time:
  \<^item> after \<open>clear\<close> no timer is pending, and no callback is called for as long as there
    is no \<open>reset\<close> and no render with another delay;
  \<^item> \<open>reset\<close> is \<open>clear\<close> followed by \<open>set\<close>: it leaves one timer pending, due the
    platform's full delay from now, which calls the current callback once;
  \<^item> a render with another delay \<open>d'\<close> leaves one timer pending, due the platform's
    delay for \<open>d'\<close> from now;
  \<^item> the cleanup of the effect is \<open>clear\<close>, after which no timer is pending.
\<close>

theorem useTimeout_contract:
  "(1 \<le> d \<and> d \<le> 2147483647 \<longrightarrow>
      timer_delay p d = nat d \<and>
      calls (timeout_run (map Advance (dt # dts)) (useTimeout_mount cb d p t0 n0))
        = (if nat d \<le> dt + sum_list dts then [(t0 + nat d, cb)] else [])) \<and>
   calls (timeout_run (map Advance (dt # dts)) (useTimeout_mount cb d p t0 n0))
     = (if timer_delay p d \<le> dt + sum_list dts then [(t0 + timer_delay p d, cb)] else []) \<and>
   (let s = timeout_run evs (useTimeout_mount cb d p t0 n0) in
      host s = p \<and>
      pending (timeout_clear s) = [] \<and>
      (list_all (sets_no_timer (dep_delay s)) quiet \<longrightarrow>
         calls (timeout_run quiet (timeout_clear s)) = calls s) \<and>
      timeout_reset (dep_delay s) s = timeout_set (dep_delay s) (timeout_clear s) \<and>
      pending (timeout_reset (dep_delay s) s)
        = [(next_timer s, now s + timer_delay p (dep_delay s))] \<and>
      calls (timeout_run (map Advance (dt # dts)) (timeout_reset (dep_delay s) s))
        = calls s @ (if timer_delay p (dep_delay s) \<le> dt + sum_list dts
                     then [(now s + timer_delay p (dep_delay s), callbackRef s)] else []) \<and>
      (d' \<noteq> dep_delay s \<longrightarrow>
         pending (useTimeout_render cb' d' s) = [(next_timer s, now s + timer_delay p d')]) \<and>
      useTimeout_unmount s = timeout_clear s \<and>
      pending (useTimeout_unmount s) = [])"
proof -
  define s where "s = timeout_run evs (useTimeout_mount cb d p t0 n0)"
  have inv: "owns_pending s"
    unfolding s_def by (rule owns_pending_reachable)
  have hs: "host s = p"
    unfolding s_def by (simp add: host_run useTimeout_mount_fields)
  have once: "calls (timeout_run (map Advance (dt # dts)) (useTimeout_mount cb d p t0 n0))
     = (if timer_delay p d \<le> dt + sum_list dts then [(t0 + timer_delay p d, cb)] else [])"
    using advances_one [of "useTimeout_mount cb d p t0 n0" n0 "t0 + timer_delay p d" dt dts]
    by (simp add: useTimeout_mount_fields)
  have range: "1 \<le> d \<and> d \<le> 2147483647 \<longrightarrow>
      timer_delay p d = nat d \<and>
      calls (timeout_run (map Advance (dt # dts)) (useTimeout_mount cb d p t0 n0))
        = (if nat d \<le> dt + sum_list dts then [(t0 + nat d, cb)] else [])"
    using once timer_delay_in_range [of d p] by simp
  have cl: "pending (timeout_clear s) = []"
    using inv by (rule timeout_clear_pending)
  have quiet: "list_all (sets_no_timer (dep_delay s)) quiet \<longrightarrow>
         calls (timeout_run quiet (timeout_clear s)) = calls s"
    using quiet_run [of "timeout_clear s" quiet] cl by (simp add: timeout_clear_fields)
  have rs: "timeout_reset (dep_delay s) s = timeout_set (dep_delay s) (timeout_clear s)"
    by (simp add: timeout_reset_def)
  have rp: "pending (timeout_reset (dep_delay s) s)
        = [(next_timer s, now s + timer_delay p (dep_delay s))]"
    using timeout_reset_pending [OF inv, of "dep_delay s"] hs by simp
  have rf: "calls (timeout_run (map Advance (dt # dts)) (timeout_reset (dep_delay s) s))
        = calls s @ (if timer_delay p (dep_delay s) \<le> dt + sum_list dts
                     then [(now s + timer_delay p (dep_delay s), callbackRef s)] else [])"
    using advances_one [OF rp, of dt dts] by (simp add: timeout_reset_fields)
  have rd: "d' \<noteq> dep_delay s \<longrightarrow>
         pending (useTimeout_render cb' d' s) = [(next_timer s, now s + timer_delay p d')]"
    using cl hs by (simp add: useTimeout_render_fields)
  have un: "useTimeout_unmount s = timeout_clear s" "pending (useTimeout_unmount s) = []"
    using cl by (simp_all add: useTimeout_unmount_def)
  from range once hs cl quiet rs rp rf rd un show ?thesis
    unfolding Let_def s_def [symmetric] by blast
qed

text \<open>
  The theorem on Node with delay 5: mounted at time 0, cleared at time 2, the
  component calls nothing during a later render and the passing of time; a render with
  the delay 9 at time 2 leaves one timer, due at time 11.
\<close>

theorem useTimeout_contract_witness:
  "(1::int) \<le> 5 \<and> (5::int) \<le> 2147483647 \<and> timer_delay Node 5 = 5 \<and>
   calls (timeout_run (map Advance (2 # [4])) (useTimeout_mount (7::nat) 5 Node 0 3)) = [(5, 7)] \<and>
   list_all (sets_no_timer 5) [Advance 10, Render (8::nat) 5, Clear] \<and>
   calls (timeout_run [Advance 10, Render 8 5, Clear]
     (timeout_clear (timeout_run [Advance 2] (useTimeout_mount (7::nat) 5 Node 0 3)))) = [] \<and>
   (9::int) \<noteq> 5 \<and>
   pending (useTimeout_render 8 9 (timeout_run [Advance 2] (useTimeout_mount (7::nat) 5 Node 0 3)))
     = [(4, 11)]"
proof -
  have s: "timeout_run [Advance 2] (useTimeout_mount (7::nat) 5 Node 0 3) =
     \<lparr>callbackRef = 7, timeoutRef = Some 3, dep_callback = 7, dep_delay = 5, set_gen = 0,
      host = Node, now = 2, next_timer = 4, pending = [(3, 5)], calls = []\<rparr>"
    by (simp add: timeout_run_def useTimeout_mount_def timeout_set_def setTimeout_def
        advance_def Let_def)
  from useTimeout_contract [where cb = "7::nat" and dt = 2 and dts = "[4]" and d = 5
      and p = Node and ?t0.0 = 0 and ?n0.0 = 3 and evs = "[Advance 2]"
      and quiet = "[Advance 10, Render 8 5, Clear]" and d' = 9 and cb' = 8]
  show ?thesis
    unfolding Let_def s by simp
qed

subsection \<open>\<open>useDelay\<close>\<close>

lemma areHookInputsEqual_map_Val:
  "length ds' = length ds \<Longrightarrow>
   areHookInputsEqual (map Val ds' @ [ResetFn g']) (map Val ds @ [ResetFn g]) = (ds' = ds \<and> g' = g)"
proof (induction ds' arbitrary: ds)
  case Nil
  then show ?case by simp
next
  case (Cons a ds')
  then show ?case by (cases ds) auto
qed

lemma delay_run_Cons: "delay_run (e # evs) h = delay_run evs (delay_step e h)"
  by (simp add: delay_run_def)

lemma useDelay_render_fields:
  "delay_deps (useDelay_render callback delay ds h)
     = reset_deps ds (set_gen (timeout (useDelay_render callback delay ds h)))"
  "now (timeout (useDelay_render callback delay ds h)) = now (timeout h)"
  "calls (timeout (useDelay_render callback delay ds h)) = calls (timeout h)"
  "dep_delay (timeout (useDelay_render callback delay ds h)) = delay"
  "host (timeout (useDelay_render callback delay ds h)) = host (timeout h)"
  by (simp_all add: useDelay_render_def Let_def useTimeout_render_fields timeout_reset_fields)

lemma useDelay_render_owns:
  "owns_pending (timeout h) \<Longrightarrow> owns_pending (timeout (useDelay_render callback delay ds h))"
  by (simp add: useDelay_render_def Let_def owns_pending_render owns_pending_reset)

lemma useDelay_render_restart:
  assumes "owns_pending (timeout h)"
    and "\<not> areHookInputsEqual (delay_deps (useDelay_render callback delay ds h)) (delay_deps h)"
  shows "map snd (pending (timeout (useDelay_render callback delay ds h)))
     = [now (timeout h) + timer_delay (host (timeout h)) delay]"
proof -
  let ?s1 = "useTimeout_render callback delay (timeout h)"
  from assms(2)
  have ch: "\<not> areHookInputsEqual (reset_deps ds (set_gen ?s1)) (delay_deps h)"
    by (simp add: useDelay_render_def Let_def timeout_reset_fields split: if_splits)
  then have "timeout (useDelay_render callback delay ds h) = timeout_reset delay ?s1"
    by (simp add: useDelay_render_def Let_def)
  moreover have "owns_pending ?s1"
    using assms(1) by (rule owns_pending_render)
  ultimately show ?thesis
    by (simp add: timeout_reset_pending useTimeout_render_fields)
qed

lemma useDelay_render_settled:
  assumes "dep_delay (timeout h) = d"
    and "delay_deps h = reset_deps ds (set_gen (timeout h))"
  shows "pending (timeout (useDelay_render callback d ds h)) = pending (timeout h) \<and>
         set_gen (timeout (useDelay_render callback d ds h)) = set_gen (timeout h)"
  using assms
  by (simp add: useDelay_render_def Let_def useTimeout_render_fields areHookInputsEqual_refl)

lemma owns_pending_delay_step:
  "owns_pending (timeout h) \<Longrightarrow> owns_pending (timeout (delay_step e h))"
  by (cases e) (simp_all add: useDelay_render_owns owns_pending_advance)

lemma owns_pending_delay_run:
  "owns_pending (timeout h) \<Longrightarrow> owns_pending (timeout (delay_run evs h))"
proof (induction evs arbitrary: h)
  case Nil
  then show ?case by (simp add: delay_run_def)
next
  case (Cons e evs)
  then show ?case by (simp add: delay_run_Cons owns_pending_delay_step)
qed

lemma host_delay_step: "host (timeout (delay_step e h)) = host (timeout h)"
  by (cases e) (simp_all add: useDelay_render_fields advance_fields)

lemma host_delay_run: "host (timeout (delay_run evs h)) = host (timeout h)"
proof (induction evs arbitrary: h)
  case Nil
  then show ?case by (simp add: delay_run_def)
next
  case (Cons e evs)
  then show ?case by (simp add: delay_run_Cons host_delay_step)
qed

lemma useDelay_mount_fields:
  "pending (timeout (useDelay_mount callback delay ds p t0 n0)) = []"
  "calls (timeout (useDelay_mount callback delay ds p t0 n0)) = []"
  "now (timeout (useDelay_mount callback delay ds p t0 n0)) = t0"
  "dep_delay (timeout (useDelay_mount callback delay ds p t0 n0)) = delay"
  "host (timeout (useDelay_mount callback delay ds p t0 n0)) = p"
  "delay_deps (useDelay_mount callback delay ds p t0 n0)
     = reset_deps ds (set_gen (timeout (useDelay_mount callback delay ds p t0 n0)))"
  "owns_pending (timeout (useDelay_mount callback delay ds p t0 n0))"
proof -
  have o: "owns_pending (timeout_reset delay (useTimeout_mount callback delay p t0 n0))"
    by (simp add: owns_pending_reset owns_pending_mount)
  show "pending (timeout (useDelay_mount callback delay ds p t0 n0)) = []"
    using o by (simp add: useDelay_mount_def Let_def timeout_clear_pending)
  show "owns_pending (timeout (useDelay_mount callback delay ds p t0 n0))"
    using o by (simp add: useDelay_mount_def Let_def owns_pending_clear)
qed (simp_all add: useDelay_mount_def Let_def timeout_clear_fields timeout_reset_fields
      useTimeout_mount_fields)

text \<open>
While delay and dependencies stay as they are, only time makes a timer fire.
\<close>

lemma settled_step:
  assumes "dep_delay (timeout h) = d"
    and "delay_deps h = reset_deps ds (set_gen (timeout h))"
    and "settled d ds e"
  shows "dep_delay (timeout (delay_step e h)) = d \<and>
         delay_deps (delay_step e h) = reset_deps ds (set_gen (timeout (delay_step e h)))"
proof (cases e)
  case (DRender callback delay dependencies)
  with assms show ?thesis by (simp add: useDelay_render_fields)
next
  case (DAdvance dt)
  with assms show ?thesis by (simp add: advance_fields)
qed

lemma settled_none:
  "pending (timeout h) = [] \<Longrightarrow> dep_delay (timeout h) = d \<Longrightarrow>
   delay_deps h = reset_deps ds (set_gen (timeout h)) \<Longrightarrow> list_all (settled d ds) evs \<Longrightarrow>
   calls (timeout (delay_run evs h)) = calls (timeout h)"
proof (induction evs arbitrary: h)
  case Nil
  then show ?case by (simp add: delay_run_def)
next
  case (Cons e evs)
  from Cons.prems have se: "settled d ds e" and sr: "list_all (settled d ds) evs"
    by simp_all
  note st = settled_step [OF Cons.prems(2) Cons.prems(3) se]
  have pc: "pending (timeout (delay_step e h)) = [] \<and>
            calls (timeout (delay_step e h)) = calls (timeout h)"
  proof (cases e)
    case (DRender callback delay dependencies)
    with se Cons.prems useDelay_render_settled [OF Cons.prems(2) Cons.prems(3), of callback]
    show ?thesis by (simp add: useDelay_render_fields)
  next
    case (DAdvance dt)
    with Cons.prems show ?thesis by (simp add: advance_fields)
  qed
  from Cons.IH [of "delay_step e h"] pc st sr show ?case
    by (simp add: delay_run_Cons)
qed

lemma settled_one:
  "pending (timeout h) = [(t, due)] \<Longrightarrow> dep_delay (timeout h) = d \<Longrightarrow>
   delay_deps h = reset_deps ds (set_gen (timeout h)) \<Longrightarrow> list_all (settled d ds) evs \<Longrightarrow>
   map fst (calls (timeout (delay_run (evs @ [DAdvance dt]) h))) =
     map fst (calls (timeout h)) @
       (if due \<le> now (timeout h) + elapsed evs + dt then [due] else [])"
proof (induction evs arbitrary: h)
  case Nil
  then show ?case by (simp add: delay_run_def advance_fields)
next
  case (Cons e evs)
  from Cons.prems have se: "settled d ds e" and sr: "list_all (settled d ds) evs"
    by simp_all
  note st = settled_step [OF Cons.prems(2) Cons.prems(3) se]
  show ?case
  proof (cases e)
    case (DRender callback delay dependencies)
    with se have e: "e = DRender callback d ds" by simp
    from useDelay_render_settled [OF Cons.prems(2) Cons.prems(3), of callback] Cons.prems(1) e
    have p: "pending (timeout (delay_step e h)) = [(t, due)]" by simp
    from Cons.IH [OF p _ _ sr] st e show ?thesis
      by (simp add: delay_run_Cons useDelay_render_fields)
  next
    case (DAdvance dt1)
    show ?thesis
    proof (cases "due \<le> now (timeout h) + dt1")
      case True
      with Cons.prems(1) DAdvance
      have p: "pending (timeout (delay_step e h)) = []"
        and c: "map fst (calls (timeout (delay_step e h))) = map fst (calls (timeout h)) @ [due]"
        by (simp_all add: advance_fields)
      have "list_all (settled d ds) (evs @ [DAdvance dt])"
        using sr by simp
      from settled_none [OF p _ _ this] st c True DAdvance show ?thesis
        by (simp add: delay_run_Cons)
    next
      case False
      with Cons.prems(1) DAdvance
      have p: "pending (timeout (delay_step e h)) = [(t, due)]"
        and c: "calls (timeout (delay_step e h)) = calls (timeout h)"
        by (simp_all add: advance_fields)
      from Cons.IH [OF p _ _ sr] st c DAdvance show ?thesis
        by (simp add: delay_run_Cons advance_fields add.assoc)
    qed
  qed
qed

text \<open>
  Claim C3 says that the callback also fires a first time, one delay after the mount,
  if the dependencies never change. It does not: the effect of line 160 calls \<open>clear\<close>
  at the mount, after the timers of \<open>useTimeout\<close> and of the effect of line 159 were
  set. Mounted at time 0 with delay 5, on either platform, the component has no timer
  pending, and the callback has not been called at time 105, with the dependencies as
  they were. The claim also says that the callback fires only when the dependencies
  have been the same for the given delay. With a delay of \<open>2^31\<close> milliseconds and the
  dependencies changed at time 9, the callback has been called at time 10.
\<close>

theorem useDelay_no_first_firing:
  "pending (timeout (useDelay_mount (7::nat) 5 [2::nat] Browser 0 3)) = [] \<and>
   calls (timeout (delay_run [DAdvance 5, DRender 7 5 [2], DAdvance 100]
            (useDelay_mount (7::nat) 5 [2::nat] Browser 0 3))) = [] \<and>
   pending (timeout (useDelay_mount (7::nat) 5 [2::nat] Node 0 3)) = [] \<and>
   calls (timeout (delay_run [DAdvance 5, DRender 7 5 [2], DAdvance 100]
            (useDelay_mount (7::nat) 5 [2::nat] Node 0 3))) = [] \<and>
   calls (timeout (delay_run [DAdvance 9, DRender 7 2147483648 [4], DAdvance 1]
            (useDelay_mount (7::nat) 2147483648 [2::nat] Node 0 3))) = [(10, 7)] \<and>
   calls (timeout (delay_run [DAdvance 9, DRender 7 2147483648 [4], DAdvance 1]
            (useDelay_mount (7::nat) 2147483648 [2::nat] Browser 0 3))) = [(9, 7)]"
  by (simp add: delay_run_def useDelay_mount_def useDelay_render_def useTimeout_mount_def
      useTimeout_render_def timeout_reset_def timeout_clear_def timeout_set_def setTimeout_def
      clearTimeout_def advance_def reset_deps_def Let_def)

text \<open>
  Claim C3, amended. The mount leaves no timer pending, and the callback is not called
  while delay and dependencies stay as they are. The array that React keeps, at the mount
  and after every render, is \<open>[...dependencies, reset]\<close>, and a change of the caller's
  dependencies (arrays of one length) is a change of that array. A delay \<open>d'\<close> from 1
  to \<open>2^31 - 1\<close> is the delay the platform's timer waits for; any other delay is
  replaced as \<open>timer_delay\<close> says. In every state \<open>h\<close> that the component reaches by
  renders and the passing of time, a render calls no callback itself, and
  \<^item> if the comparison of its array with the previous one reports a change, it runs
    \<open>reset\<close>: one timer is pending, due the platform's full delay for \<open>d'\<close> from now; if
    then delay and dependencies stay as they are, the callback is called once, when
    that delay has passed, and not before;
  \<^item> if it reports none, the timer is what \<open>useTimeout\<close> alone makes of it;
  \<^item> unmounting leaves no timer pending.
\<close>

theorem useDelay_contract:
  "pending (timeout (useDelay_mount cb d ds p t0 n0)) = [] \<and>
   delay_deps (useDelay_mount cb d ds p t0 n0)
     = reset_deps ds (set_gen (timeout (useDelay_mount cb d ds p t0 n0))) \<and>
   (list_all (settled d ds) idle \<longrightarrow>
      calls (timeout (delay_run idle (useDelay_mount cb d ds p t0 n0))) = []) \<and>
   (length ds' = length old \<and> ds' \<noteq> old \<longrightarrow>
      \<not> areHookInputsEqual (reset_deps ds' g') (reset_deps old g)) \<and>
   (1 \<le> d' \<and> d' \<le> 2147483647 \<longrightarrow> timer_delay p d' = nat d') \<and>
   (let h = delay_run evs (useDelay_mount cb d ds p t0 n0);
        h' = useDelay_render cb' d' ds' h
    in delay_deps h' = reset_deps ds' (set_gen (timeout h')) \<and>
       calls (timeout h') = calls (timeout h) \<and>
       (\<not> areHookInputsEqual (delay_deps h') (delay_deps h) \<longrightarrow>
          map snd (pending (timeout h')) = [now (timeout h) + timer_delay p d'] \<and>
          (list_all (settled d' ds') quiet \<longrightarrow>
             map fst (calls (timeout (delay_run (quiet @ [DAdvance dt]) h')))
               = map fst (calls (timeout h)) @
                 (if timer_delay p d' \<le> elapsed quiet + dt
                  then [now (timeout h) + timer_delay p d'] else []))) \<and>
       (areHookInputsEqual (delay_deps h') (delay_deps h) \<longrightarrow>
          pending (timeout h') = pending (useTimeout_render cb' d' (timeout h))) \<and>
       pending (timeout (useDelay_unmount h)) = [])"
proof -
  define h where "h = delay_run evs (useDelay_mount cb d ds p t0 n0)"
  define h' where "h' = useDelay_render cb' d' ds' h"
  have inv: "owns_pending (timeout h)"
    unfolding h_def by (simp add: owns_pending_delay_run useDelay_mount_fields)
  have hp: "host (timeout h) = p"
    unfolding h_def by (simp add: host_delay_run useDelay_mount_fields)
  have m1: "pending (timeout (useDelay_mount cb d ds p t0 n0)) = []"
    by (simp add: useDelay_mount_fields)
  have m0: "delay_deps (useDelay_mount cb d ds p t0 n0)
     = reset_deps ds (set_gen (timeout (useDelay_mount cb d ds p t0 n0)))"
    by (simp add: useDelay_mount_fields)
  have m2: "list_all (settled d ds) idle \<longrightarrow>
      calls (timeout (delay_run idle (useDelay_mount cb d ds p t0 n0))) = []"
    using settled_none [of "useDelay_mount cb d ds p t0 n0" d ds idle]
    by (simp add: useDelay_mount_fields)
  have cmp: "length ds' = length old \<and> ds' \<noteq> old \<longrightarrow>
      \<not> areHookInputsEqual (reset_deps ds' g') (reset_deps old g)"
    by (simp add: reset_deps_def areHookInputsEqual_map_Val)
  have range: "1 \<le> d' \<and> d' \<le> 2147483647 \<longrightarrow> timer_delay p d' = nat d'"
    by (simp add: timer_delay_in_range)
  have dd: "delay_deps h' = reset_deps ds' (set_gen (timeout h'))"
    and cc: "calls (timeout h') = calls (timeout h)"
    and nn: "now (timeout h') = now (timeout h)"
    and dl: "dep_delay (timeout h') = d'"
    unfolding h'_def by (simp_all add: useDelay_render_fields)
  have restart: "map snd (pending (timeout h')) = [now (timeout h) + timer_delay p d'] \<and>
          (list_all (settled d' ds') quiet \<longrightarrow>
             map fst (calls (timeout (delay_run (quiet @ [DAdvance dt]) h')))
               = map fst (calls (timeout h)) @
                 (if timer_delay p d' \<le> elapsed quiet + dt
                  then [now (timeout h) + timer_delay p d'] else []))"
    if ch: "\<not> areHookInputsEqual (delay_deps h') (delay_deps h)"
  proof -
    from useDelay_render_restart [OF inv ch [unfolded h'_def]]
    have pd: "map snd (pending (timeout h')) = [now (timeout h) + timer_delay p d']"
      by (simp add: h'_def hp)
    then obtain t where pt: "pending (timeout h') = [(t, now (timeout h) + timer_delay p d')]"
      by (cases "pending (timeout h')") auto
    have "map fst (calls (timeout (delay_run (quiet @ [DAdvance dt]) h')))
               = map fst (calls (timeout h)) @
                 (if timer_delay p d' \<le> elapsed quiet + dt
                  then [now (timeout h) + timer_delay p d'] else [])"
      if q: "list_all (settled d' ds') quiet"
      using settled_one [OF pt dl dd q, of dt] by (simp add: cc nn)
    with pd show ?thesis by simp
  qed
  have same: "pending (timeout h') = pending (useTimeout_render cb' d' (timeout h))"
    if eq: "areHookInputsEqual (delay_deps h') (delay_deps h)"
  proof -
    from eq have "areHookInputsEqual
        (reset_deps ds' (set_gen (useTimeout_render cb' d' (timeout h)))) (delay_deps h)"
      by (simp add: h'_def useDelay_render_def Let_def timeout_reset_fields split: if_splits)
    then show ?thesis
      by (simp add: h'_def useDelay_render_def Let_def)
  qed
  have un: "pending (timeout (useDelay_unmount h)) = []"
    using inv by (simp add: useDelay_unmount_def useTimeout_unmount_def timeout_clear_pending)
  from m0 m1 m2 cmp range dd cc restart same un show ?thesis
    unfolding Let_def h_def [symmetric] h'_def [symmetric] by blast
qed

text \<open>
  The theorem in a browser with delay 5: nothing is called after the mount; the
  dependencies change at time 9, stay as they are, and the callback is called at
  time 14.
\<close>

theorem useDelay_contract_witness:
  "list_all (settled 5 [2::nat]) [DAdvance 9, DRender (8::nat) 5 [2::nat]] \<and>
   calls (timeout (delay_run [DAdvance 9, DRender (8::nat) 5 [2::nat]]
      (useDelay_mount (7::nat) 5 [2::nat] Browser 0 3))) = [] \<and>
   length [4::nat] = length [2::nat] \<and> [4::nat] \<noteq> [2] \<and>
   \<not> areHookInputsEqual (reset_deps [4::nat] 0) (reset_deps [2::nat] 0) \<and>
   (1::int) \<le> 5 \<and> (5::int) \<le> 2147483647 \<and> timer_delay Browser 5 = 5 \<and>
   list_all (settled 5 [4::nat]) [DAdvance 3, DRender (8::nat) 5 [4::nat]] \<and>
   map fst (calls (timeout (delay_run ([DAdvance 3, DRender (8::nat) 5 [4::nat]] @ [DAdvance 2])
      (useDelay_render (7::nat) 5 [4::nat]
         (delay_run [DAdvance 9] (useDelay_mount (7::nat) 5 [2::nat] Browser 0 3))))))
     = [14]"
proof -
  have h: "delay_run [DAdvance 9] (useDelay_mount (7::nat) 5 [2::nat] Browser 0 3) =
     \<lparr>timeout = \<lparr>callbackRef = 7, timeoutRef = Some 4, dep_callback = 7, dep_delay = 5,
        set_gen = 0, host = Browser, now = 9, next_timer = 5, pending = [], calls = []\<rparr>,
      delay_deps = [Val 2, ResetFn 0]\<rparr>"
    by (simp add: delay_run_def useDelay_mount_def useTimeout_mount_def
      timeout_reset_def timeout_clear_def timeout_set_def setTimeout_def
      clearTimeout_def advance_def reset_deps_def Let_def)
  have h': "useDelay_render (7::nat) 5 [4::nat]
      \<lparr>timeout = \<lparr>callbackRef = 7, timeoutRef = Some 4, dep_callback = 7, dep_delay = 5,
        set_gen = 0, host = Browser, now = 9, next_timer = 5, pending = [], calls = []\<rparr>,
      delay_deps = [Val 2, ResetFn 0]\<rparr> =
     \<lparr>timeout = \<lparr>callbackRef = 7, timeoutRef = Some 5, dep_callback = 7, dep_delay = 5,
        set_gen = 0, host = Browser, now = 9, next_timer = 6, pending = [(5, 14)], calls = []\<rparr>,
      delay_deps = [Val 4, ResetFn 0]\<rparr>"
    by (simp add: useDelay_render_def useTimeout_render_def
      timeout_reset_def timeout_clear_def timeout_set_def setTimeout_def
      clearTimeout_def reset_deps_def Let_def)
  from useDelay_contract [where cb = "7::nat" and d = 5 and ds = "[2::nat]" and p = Browser
      and ?t0.0 = 0 and ?n0.0 = 3 and idle = "[DAdvance 9, DRender (8::nat) 5 [2::nat]]"
      and ds' = "[4::nat]" and old = "[2::nat]" and g' = 0 and g = 0 and evs = "[DAdvance 9]"
      and cb' = "7::nat" and d' = 5 and quiet = "[DAdvance 3, DRender (8::nat) 5 [4::nat]]"
      and dt = 2]
  show ?thesis
    unfolding Let_def h h' by (simp add: reset_deps_def)
qed

end
